theory Spec2Isabelle
  imports Main "HOL-Library.Word"
begin

unbundle bit_operations_syntax

section \<open>UTF-8 codec (detail/utf8.hpp)\<close>

type_synonym byte = "8 word"

definition encode :: "32 word \<Rightarrow> byte list" where
  "encode cp =
     (if cp < 0x80 then [ucast cp]
      else if cp < 0x800 then
        [ucast (0xC0 OR drop_bit 6 cp), ucast (0x80 OR (cp AND 0x3F))]
      else if cp < 0x10000 then
        [ucast (0xE0 OR drop_bit 12 cp), ucast (0x80 OR (drop_bit 6 cp AND 0x3F)),
         ucast (0x80 OR (cp AND 0x3F))]
      else if cp \<le> 0x10FFFF then
        [ucast (0xF0 OR drop_bit 18 cp), ucast (0x80 OR (drop_bit 12 cp AND 0x3F)),
         ucast (0x80 OR (drop_bit 6 cp AND 0x3F)), ucast (0x80 OR (cp AND 0x3F))]
      else [])"

definition sequence_length :: "byte \<Rightarrow> nat" where
  "sequence_length lead =
     (if lead < 0x80 then 1
      else if lead AND 0xE0 = 0xC0 then 2
      else if lead AND 0xF0 = 0xE0 then 3
      else if lead AND 0xF8 = 0xF0 then 4
      else 0)"

function decode_loop :: "byte list \<Rightarrow> nat \<Rightarrow> nat \<Rightarrow> 32 word \<Rightarrow> nat + 32 word" where
  "decode_loop p len i cp =
     (if i < len then
        (let byte = p ! i in
         if byte AND 0xC0 \<noteq> 0x80 then Inl i
         else decode_loop p len (i + 1) (push_bit 6 cp OR ucast (byte AND 0x3F)))
      else Inr cp)"
  by pat_completeness auto
termination
  by (relation "measure (\<lambda>(p, len, i, cp). len - i)") auto

declare decode_loop.simps [simp del]

fun decode :: "byte list \<Rightarrow> (32 word \<times> byte list) option" where
  "decode [] = None"
| "decode (lead # rest) =
     (let p = lead # rest; len = sequence_length lead in
      if len = 0 \<or> length p < len then Some (0xFFFD, rest)
      else if len = 1 then Some (ucast lead, rest)
      else if len = 2 \<or> len = 3 \<or> len = 4 then
        (case decode_loop p len 1
                (if len = 2 then ucast (lead AND 0x1F)
                 else if len = 3 then ucast (lead AND 0x0F)
                 else ucast (lead AND 0x07)) of
           Inl i \<Rightarrow> Some (0xFFFD, drop i p)
         | Inr cp \<Rightarrow>
             if (len = 2 \<and> cp < 0x80) \<or> (len = 3 \<and> cp < 0x800) \<or> (len = 4 \<and> cp < 0x10000)
             then Some (0xFFFD, drop len p)
             else if 0xD800 \<le> cp \<and> cp \<le> 0xDFFF then Some (0xFFFD, drop len p)
             else if 0x10FFFF < cp then Some (0xFFFD, drop len p)
             else Some (cp, drop len p))
      else Some (0xFFFD, rest))"

function conts_ok :: "byte list \<Rightarrow> nat \<Rightarrow> nat \<Rightarrow> bool" where
  "conts_ok p len i =
     (if i < len then
        (if (p ! i) AND 0xC0 \<noteq> 0x80 then False else conts_ok p len (i + 1))
      else True)"
  by pat_completeness auto
termination
  by (relation "measure (\<lambda>(p, len, i). len - i)") auto

declare conts_ok.simps [simp del]

function accum :: "byte list \<Rightarrow> nat \<Rightarrow> nat \<Rightarrow> 32 word \<Rightarrow> 32 word" where
  "accum p len i cp =
     (if i < len then accum p len (i + 1) (push_bit 6 cp OR ucast ((p ! i) AND 0x3F))
      else cp)"
  by pat_completeness auto
termination
  by (relation "measure (\<lambda>(p, len, i, cp). len - i)") auto

declare accum.simps [simp del]

fun validate :: "byte list \<Rightarrow> bool" where
  "validate [] = True"
| "validate (lead # rest) =
     (if lead < 0x80 then validate rest
      else
        (let p = lead # rest; len = sequence_length lead in
         if len = 0 \<or> length p < len then False
         else if \<not> conts_ok p len 1 then False
         else if len = 2 \<or> len = 3 \<or> len = 4 then
           (let cp = accum p len 1
                       (if len = 2 then ucast (lead AND 0x1F)
                        else if len = 3 then ucast (lead AND 0x0F)
                        else ucast (lead AND 0x07)) in
            if (len = 2 \<and> cp < 0x80) \<or> (len = 3 \<and> cp < 0x800) \<or> (len = 4 \<and> cp < 0x10000)
            then False
            else if 0xD800 \<le> cp \<and> cp \<le> 0xDFFF then False
            else if 0x10FFFF < cp then False
            else validate (drop (len - 1) rest))
         else False))"

lemma decode_loop_Inl: "decode_loop p len i cp = Inl j \<Longrightarrow> i \<le> j \<and> j < len"
proof (induction p len i cp rule: decode_loop.induct)
  case (1 p len i cp)
  then show ?case
    by (subst (asm) (2) decode_loop.simps) (auto simp: Let_def split: if_splits)
qed

lemma decode_shorter: "decode p = Some (cp, p') \<Longrightarrow> length p' < length p"
proof (cases p)
  case Nil
  assume "decode p = Some (cp, p')"
  with Nil show ?thesis by simp
next
  case (Cons lead rest)
  assume d: "decode p = Some (cp, p')"
  show ?thesis
  proof (cases "decode_loop p (sequence_length lead) 1 (if sequence_length lead = 2 then ucast (lead AND 0x1F)
                 else if sequence_length lead = 3 then ucast (lead AND 0x0F)
                 else ucast (lead AND 0x07))")
    case (Inl j)
    from decode_loop_Inl[OF Inl] have "1 \<le> j" by simp
    with d Cons Inl show ?thesis
      by (auto simp: Let_def split: if_splits)
  next
    case (Inr c)
    with d Cons show ?thesis
      by (auto simp: Let_def split: if_splits)
  qed
qed

function decode_all :: "byte list \<Rightarrow> (32 word \<times> byte list) list" where
  "decode_all p =
     (case decode p of
        None \<Rightarrow> []
      | Some (cp, p') \<Rightarrow> (cp, take (length p - length p') p) # decode_all p')"
  by pat_completeness auto
termination
  by (relation "measure length") (auto simp: decode_shorter)

declare decode_all.simps [simp del]

lemma upper_unset: "(w::32 word) < 2 ^ k \<Longrightarrow> k \<le> n \<Longrightarrow> \<not> bit w n"
  by (metis bit_take_bit_iff leD less_mask_eq take_bit_eq_mask)

lemma idx8: "n < 8 \<Longrightarrow> n \<in> {0, 1, 2, 3, 4, 5, 6, 7::nat}"
  by auto

lemma and_3F: "(x::'a::len word) AND 0x3F = take_bit 6 x"
  and and_1F: "x AND 0x1F = take_bit 5 x"
  and and_0F: "x AND 0x0F = take_bit 4 x"
  and and_07: "x AND 0x07 = take_bit 3 x"
  by (simp_all add: take_bit_eq_mask mask_eq_exp_minus_1)

lemmas and_tb = and_3F and_1F and_0F and_07

lemma cont_ok: "(ucast (0x80 OR ((x::32 word) AND 0x3F)) :: byte) AND 0xC0 = 0x80"
  apply (rule bit_word_eqI)
  subgoal for n using idx8[of n] by (auto simp: bit_simps and_tb)
  done

lemma cont_val: "(ucast ((ucast (0x80 OR ((x::32 word) AND 0x3F)) :: byte) AND 0x3F) :: 32 word) = x AND 0x3F"
  apply (rule bit_word_eqI)
  subgoal for n using idx8[of n] by (auto simp: bit_simps and_tb)
  done

lemma tb_self: "(w::32 word) < 2 ^ k \<Longrightarrow> take_bit k w = w"
  by (simp add: less_mask_eq take_bit_eq_mask)

lemma byte_lt_80: "(b::byte) < 0x80 \<longleftrightarrow> \<not> bit b 7"
proof
  assume "b < 0x80"
  then have "take_bit 7 b = b" by (simp add: less_mask_eq take_bit_eq_mask)
  then have "bit b 7 = bit (take_bit 7 b) 7" by simp
  then show "\<not> bit b 7" by (simp add: bit_simps)
next
  assume h: "\<not> bit b 7"
  have "take_bit 7 b = b"
    apply (rule bit_word_eqI)
    subgoal for n using idx8[of n] h by (auto simp: bit_simps)
    done
  moreover have "b AND mask 7 < 2 ^ 7" by (rule and_mask_less') simp
  then have "take_bit 7 b < 2 ^ 7" by (simp add: take_bit_eq_mask)
  ultimately show "b < 0x80" by simp
qed

lemma seq1: "sequence_length (ucast (take_bit 7 (x::32 word))) = 1"
  by (simp add: sequence_length_def byte_lt_80 bit_simps)

lemma val1: "(ucast (ucast (take_bit 7 (x::32 word)) :: byte) :: 32 word) = take_bit 7 x"
  apply (rule bit_word_eqI)
  subgoal for n by (auto simp: bit_simps)
  done

lemma lead2: "(ucast (0xC0 OR drop_bit 6 (take_bit 11 (x::32 word))) :: byte) AND 0xE0 = 0xC0"
  apply (rule bit_word_eqI)
  subgoal for n using idx8[of n] by (auto simp: bit_simps)
  done

lemma lead2_val: "(ucast ((ucast (0xC0 OR drop_bit 6 (take_bit 11 (x::32 word))) :: byte) AND 0x1F) :: 32 word) = drop_bit 6 (take_bit 11 x)"
  apply (rule bit_word_eqI)
  subgoal for n using idx8[of n] by (auto simp: bit_simps and_tb)
  done

lemma lead2_hi: "bit (ucast (0xC0 OR drop_bit 6 (take_bit 11 (x::32 word))) :: byte) 7"
  by (auto simp: bit_simps)

lemma seq2: "sequence_length (ucast (0xC0 OR drop_bit 6 (take_bit 11 (x::32 word)))) = 2"
  by (simp add: sequence_length_def byte_lt_80 lead2_hi lead2)

lemma lead3: "(ucast (0xE0 OR drop_bit 12 (take_bit 16 (x::32 word))) :: byte) AND 0xF0 = 0xE0"
  apply (rule bit_word_eqI)
  subgoal for n using idx8[of n] by (auto simp: bit_simps)
  done

lemma lead3_not2: "(ucast (0xE0 OR drop_bit 12 (take_bit 16 (x::32 word))) :: byte) AND 0xE0 \<noteq> 0xC0"
proof
  assume "(ucast (0xE0 OR drop_bit 12 (take_bit 16 x)) :: byte) AND 0xE0 = 0xC0"
  then have "bit ((ucast (0xE0 OR drop_bit 12 (take_bit 16 x)) :: byte) AND 0xE0) 5 = bit (0xC0 :: byte) 5"
    by simp
  then show False by (simp add: bit_simps)
qed

lemma lead3_val: "(ucast ((ucast (0xE0 OR drop_bit 12 (take_bit 16 (x::32 word))) :: byte) AND 0x0F) :: 32 word) = drop_bit 12 (take_bit 16 x)"
  apply (rule bit_word_eqI)
  subgoal for n using idx8[of n] by (auto simp: bit_simps and_tb)
  done

lemma lead3_hi: "bit (ucast (0xE0 OR drop_bit 12 (take_bit 16 (x::32 word))) :: byte) 7"
  by (auto simp: bit_simps)

lemma seq3: "sequence_length (ucast (0xE0 OR drop_bit 12 (take_bit 16 (x::32 word)))) = 3"
  by (simp add: sequence_length_def byte_lt_80 lead3_hi lead3 lead3_not2)

lemma lead4: "(ucast (0xF0 OR drop_bit 18 (take_bit 21 (x::32 word))) :: byte) AND 0xF8 = 0xF0"
  apply (rule bit_word_eqI)
  subgoal for n using idx8[of n] by (auto simp: bit_simps)
  done

lemma lead4_not2: "(ucast (0xF0 OR drop_bit 18 (take_bit 21 (x::32 word))) :: byte) AND 0xE0 \<noteq> 0xC0"
proof
  assume "(ucast (0xF0 OR drop_bit 18 (take_bit 21 x)) :: byte) AND 0xE0 = 0xC0"
  then have "bit ((ucast (0xF0 OR drop_bit 18 (take_bit 21 x)) :: byte) AND 0xE0) 5 = bit (0xC0 :: byte) 5"
    by simp
  then show False by (simp add: bit_simps)
qed

lemma lead4_not3: "(ucast (0xF0 OR drop_bit 18 (take_bit 21 (x::32 word))) :: byte) AND 0xF0 \<noteq> 0xE0"
proof
  assume "(ucast (0xF0 OR drop_bit 18 (take_bit 21 x)) :: byte) AND 0xF0 = 0xE0"
  then have "bit ((ucast (0xF0 OR drop_bit 18 (take_bit 21 x)) :: byte) AND 0xF0) 4 = bit (0xE0 :: byte) 4"
    by simp
  then show False by (simp add: bit_simps)
qed

lemma lead4_val: "(ucast ((ucast (0xF0 OR drop_bit 18 (take_bit 21 (x::32 word))) :: byte) AND 0x07) :: 32 word) = drop_bit 18 (take_bit 21 x)"
  apply (rule bit_word_eqI)
  subgoal for n using idx8[of n] by (auto simp: bit_simps and_tb)
  done

lemma lead4_hi: "bit (ucast (0xF0 OR drop_bit 18 (take_bit 21 (x::32 word))) :: byte) 7"
  by (auto simp: bit_simps)

lemma seq4: "sequence_length (ucast (0xF0 OR drop_bit 18 (take_bit 21 (x::32 word)))) = 4"
  by (simp add: sequence_length_def byte_lt_80 lead4_hi lead4 lead4_not2 lead4_not3)

lemma reasm2: "push_bit 6 (drop_bit 6 (cp::32 word)) OR (cp AND 0x3F) = cp"
  apply (rule bit_word_eqI)
  subgoal for n by (auto simp: bit_simps and_tb)
  done

lemma reasm3: "push_bit 6 (push_bit 6 (drop_bit 12 (cp::32 word)) OR (drop_bit 6 cp AND 0x3F)) OR (cp AND 0x3F) = cp"
  apply (rule bit_word_eqI)
  subgoal for n by (cases "n < 6"; cases "n < 12"; simp add: bit_simps and_tb; arith?)
  done

lemma reasm4: "push_bit 6 (push_bit 6 (push_bit 6 (drop_bit 18 (cp::32 word)) OR (drop_bit 12 cp AND 0x3F)) OR (drop_bit 6 cp AND 0x3F)) OR (cp AND 0x3F) = cp"
  apply (rule bit_word_eqI)
  subgoal for n by (cases "n < 6"; cases "n < 12"; cases "n < 18"; simp add: bit_simps and_tb; arith?)
  done

lemma dl_step: "i < len \<Longrightarrow> decode_loop p len i cp =
     (if (p ! i) AND 0xC0 \<noteq> 0x80 then Inl i
      else decode_loop p len (Suc i) (push_bit 6 cp OR ucast ((p ! i) AND 0x3F)))"
  by (subst decode_loop.simps) (simp add: Let_def)

lemma dl_done: "\<not> i < len \<Longrightarrow> decode_loop p len i cp = Inr cp"
  by (subst decode_loop.simps) simp


lemma decode_encode:
  assumes "cp \<le> 0x10FFFF" and "\<not> (0xD800 \<le> cp \<and> cp \<le> 0xDFFF)"
  shows "decode (encode cp) = Some (cp, [])"
proof -
  have n1: "\<not> 0x10FFFF < cp" using assms(1) by (simp add: not_less)
  note n2 = assms(2)
  consider (a) "cp < 0x80" | (b) "\<not> cp < 0x80" "cp < 0x800"
    | (c) "\<not> cp < 0x800" "cp < 0x10000" | (d) "\<not> cp < 0x10000"
    by blast
  then show ?thesis
  proof cases
    case a
    then have e: "take_bit 7 cp = cp" using tb_self[of cp 7] by simp
    show ?thesis
      using a seq1[of cp] val1[of cp] by (simp add: encode_def e)
  next
    case b
    then have e: "take_bit 11 cp = cp" using tb_self[of cp 11] by simp
    show ?thesis
      using b seq2[of cp] lead2_val[of cp] cont_ok[of cp] cont_val[of cp] reasm2[of cp] n1 n2
      apply (simp add: encode_def e Let_def dl_step dl_done)
      apply blast?
      done
  next
    case c
    then have l1: "\<not> cp < 0x80" by (simp add: word_less_nat_alt)
    from c have e: "take_bit 16 cp = cp" using tb_self[of cp 16] by simp
    show ?thesis
      using c l1 seq3[of cp] lead3_val[of cp] cont_ok[of cp] cont_val[of cp]
        cont_ok[of "drop_bit 6 cp"] cont_val[of "drop_bit 6 cp"] reasm3[of cp] n1 n2
      apply (simp add: encode_def e Let_def dl_step dl_done)
      apply blast?
      done
  next
    case d
    then have l1: "\<not> cp < 0x80" and l2: "\<not> cp < 0x800" by (simp_all add: word_less_nat_alt)
    have "cp < 2 ^ 21" using assms(1) by (simp add: word_less_nat_alt word_le_nat_alt)
    then have e: "take_bit 21 cp = cp" using tb_self[of cp 21] by simp
    show ?thesis
      using d l1 l2 assms(1) seq4[of cp] lead4_val[of cp] cont_ok[of cp] cont_val[of cp]
        cont_ok[of "drop_bit 6 cp"] cont_val[of "drop_bit 6 cp"]
        cont_ok[of "drop_bit 12 cp"] cont_val[of "drop_bit 12 cp"] reasm4[of cp] n1 n2
      apply (simp add: encode_def e Let_def dl_step dl_done)
      apply blast?
      done
  qed
qed

theorem utf8_validate_counterexample: "validate [0xEF, 0xBF, 0xBD] \<and> 0xFFFD \<in> fst ` set (decode_all [0xEF, 0xBF, 0xBD])"
  by (simp add: decode_all.simps sequence_length_def Let_def dl_step dl_done
      conts_ok.simps accum.simps)

lemma ac_step: "i < len \<Longrightarrow> accum p len i cp =
     accum p len (Suc i) (push_bit 6 cp OR ucast ((p ! i) AND 0x3F))"
  by (subst accum.simps) simp

lemma ac_done: "\<not> i < len \<Longrightarrow> accum p len i cp = cp"
  by (subst accum.simps) simp

lemma co_step: "i < len \<Longrightarrow> conts_ok p len i =
     (if (p ! i) AND 0xC0 \<noteq> 0x80 then False else conts_ok p len (Suc i))"
  by (subst conts_ok.simps) simp

lemma co_done: "\<not> i < len \<Longrightarrow> conts_ok p len i"
  by (subst conts_ok.simps) simp

lemma dl_conts: "conts_ok p len i \<Longrightarrow> decode_loop p len i cp = Inr (accum p len i cp)"
proof (induction p len i cp rule: decode_loop.induct)
  case (1 p len i cp)
  show ?case
  proof (cases "i < len")
    case True
    with "1.prems" have ok: "(p ! i) AND 0xC0 = 0x80" and nxt: "conts_ok p len (Suc i)"
      by (auto simp: co_step split: if_splits)
    from "1.IH"[OF True refl] ok nxt
    have "decode_loop p len (i + 1) (push_bit 6 cp OR ucast ((p ! i) AND 0x3F))
          = Inr (accum p len (i + 1) (push_bit 6 cp OR ucast ((p ! i) AND 0x3F)))"
      by simp
    with True ok show ?thesis by (simp add: dl_step ac_step)
  next
    case False
    then show ?thesis by (simp add: dl_done ac_done)
  qed
qed

lemma dl_not_conts: "\<not> conts_ok p len i \<Longrightarrow> \<exists>j. decode_loop p len i cp = Inl j \<and> i \<le> j \<and> j < len"
proof (induction p len i cp rule: decode_loop.induct)
  case (1 p len i cp)
  show ?case
  proof (cases "i < len")
    case True
    show ?thesis
    proof (cases "(p ! i) AND 0xC0 = 0x80")
      case ok: True
      with "1.prems" True have nxt: "\<not> conts_ok p len (i + 1)" by (simp add: co_step)
      from "1.IH"[OF True refl] ok nxt
      obtain j where "decode_loop p len (i + 1) (push_bit 6 cp OR ucast ((p ! i) AND 0x3F)) = Inl j"
        "i + 1 \<le> j" "j < len" by auto
      with True ok show ?thesis by (auto simp: dl_step)
    next
      case False
      with True show ?thesis by (auto simp: dl_step)
    qed
  next
    case False
    with "1.prems" show ?thesis by (simp add: co_done)
  qed
qed

lemma ucast_ne_fffd: "(ucast (b::byte) :: 32 word) \<noteq> 0xFFFD"
proof
  assume "(ucast b :: 32 word) = 0xFFFD"
  then have "bit (ucast b :: 32 word) 15 = bit (0xFFFD :: 32 word) 15" by simp
  then show False by (auto simp: bit_simps dest: bit_imp_le_length)
qed

lemma two_ne_fffd: "push_bit 6 (ucast ((a::byte) AND 0x1F)) OR ucast ((b::byte) AND 0x3F) \<noteq> (0xFFFD :: 32 word)"
proof
  assume "push_bit 6 (ucast (a AND 0x1F)) OR ucast (b AND 0x3F) = (0xFFFD :: 32 word)"
  then have "bit (push_bit 6 (ucast (a AND 0x1F)) OR ucast (b AND 0x3F) :: 32 word) 15 = bit (0xFFFD :: 32 word) 15" by simp
  then show False by (simp add: bit_simps)
qed

lemma inj3:
  fixes a b c :: byte
  assumes a1: "a AND 0xF0 = 0xE0" and b1: "b AND 0xC0 = 0x80" and c1: "c AND 0xC0 = 0x80"
    and w: "push_bit 6 (push_bit 6 (ucast (a AND 0x0F)) OR ucast (b AND 0x3F)) OR ucast (c AND 0x3F) = (0xFFFD::32 word)"
  shows "a = 0xEF \<and> b = 0xBF \<and> c = 0xBD"
proof -
  have W: "bit (push_bit 6 (push_bit 6 (ucast (a AND 0x0F)) OR ucast (b AND 0x3F)) OR ucast (c AND 0x3F) :: 32 word) k
           = bit (0xFFFD::32 word) k" for k
    using w by simp
  have A: "bit (a AND 0xF0) k = bit (0xE0::byte) k" for k using a1 by simp
  have B: "bit (b AND 0xC0) k = bit (0x80::byte) k" for k using b1 by simp
  have C: "bit (c AND 0xC0) k = bit (0x80::byte) k" for k using c1 by simp
  have a_lo: "bit a 0" "bit a 1" "bit a 2" "bit a 3"
    using W[of 12] W[of 13] W[of 14] W[of 15] by (simp_all add: bit_simps and_tb)
  have a_hi: "\<not> bit a 4" "bit a 5" "bit a 6" "bit a 7"
    using A[of 4] A[of 5] A[of 6] A[of 7] by (simp_all add: bit_simps)
  have b_lo: "bit b 0" "bit b 1" "bit b 2" "bit b 3" "bit b 4" "bit b 5"
    using W[of 6] W[of 7] W[of 8] W[of 9] W[of 10] W[of 11] by (simp_all add: bit_simps and_tb)
  have b_hi: "\<not> bit b 6" "bit b 7"
    using B[of 6] B[of 7] by (simp_all add: bit_simps)
  have c_lo: "bit c 0" "\<not> bit c 1" "bit c 2" "bit c 3" "bit c 4" "bit c 5"
    using W[of 0] W[of 1] W[of 2] W[of 3] W[of 4] W[of 5] by (simp_all add: bit_simps and_tb)
  have c_hi: "\<not> bit c 6" "bit c 7"
    using C[of 6] C[of 7] by (simp_all add: bit_simps)
  have "a = 0xEF"
    apply (rule bit_word_eqI)
    subgoal for n using idx8[of n] a_lo a_hi by (auto simp: bit_simps)
    done
  moreover have "b = 0xBF"
    apply (rule bit_word_eqI)
    subgoal for n using idx8[of n] b_lo b_hi by (auto simp: bit_simps)
    done
  moreover have "c = 0xBD"
    apply (rule bit_word_eqI)
    subgoal for n using idx8[of n] c_lo c_hi by (auto simp: bit_simps)
    done
  ultimately show ?thesis by simp
qed

definition no_bad_step :: "byte list \<Rightarrow> bool" where
  "no_bad_step p \<longleftrightarrow> (\<forall>(cp, chunk) \<in> set (decode_all p). cp = 0xFFFD \<longrightarrow> chunk = [0xEF, 0xBF, 0xBD])"

lemma nbs_Nil: "no_bad_step []"
  by (simp add: no_bad_step_def decode_all.simps)

lemma nbs_step: "decode p = Some (cp, p') \<Longrightarrow>
   no_bad_step p \<longleftrightarrow> (cp = 0xFFFD \<longrightarrow> take (length p - length p') p = [0xEF, 0xBF, 0xBD]) \<and> no_bad_step p'"
  by (subst no_bad_step_def, subst decode_all.simps) (simp add: no_bad_step_def)

lemma seq_len_cases: "\<not> lead < 0x80 \<Longrightarrow>
   sequence_length lead = 0 \<or> sequence_length lead = 2 \<or> sequence_length lead = 3 \<or> sequence_length lead = 4"
  by (simp add: sequence_length_def)

lemma seq_len3: "sequence_length lead = 3 \<Longrightarrow> lead AND 0xF0 = 0xE0"
  by (simp add: sequence_length_def split: if_splits)

lemma seq_EF: "sequence_length 0xEF = 3"
  by (simp add: sequence_length_def)

lemma validate_iff_aux: "validate p \<longleftrightarrow> no_bad_step p"
proof (induction "length p" arbitrary: p rule: less_induct)
  case less
  show ?case
  proof (cases p)
    case Nil
    then show ?thesis by (simp add: nbs_Nil)
  next
    case (Cons lead rest)
    define len where "len = sequence_length lead"
    define c0 :: "32 word" where "c0 = (if len = 2 then ucast (lead AND 0x1F)
        else if len = 3 then ucast (lead AND 0x0F) else ucast (lead AND 0x07))"
    show ?thesis
    proof (cases "lead < 0x80")
      case True
      have d: "decode p = Some (ucast lead, rest)"
        using True Cons by (simp add: sequence_length_def)
      have v: "validate p = validate rest" using True Cons by simp
      have IH: "validate rest \<longleftrightarrow> no_bad_step rest" using less[of rest] Cons by simp
      show ?thesis unfolding v nbs_step[OF d] using IH ucast_ne_fffd by simp
    next
      case nasc: False
      from seq_len_cases[OF nasc] have lc: "len = 0 \<or> len = 2 \<or> len = 3 \<or> len = 4"
        by (simp add: len_def)
      show ?thesis
      proof (cases "len = 0 \<or> length p < len")
        case True
        have d: "decode p = Some (0xFFFD, rest)"
          using True Cons by (auto simp: len_def Let_def)
        have v: "\<not> validate p" using True Cons nasc by (auto simp: len_def Let_def)
        show ?thesis unfolding nbs_step[OF d] using v Cons by simp
      next
        case lenok: False
        with lc have l234: "len = 2 \<or> len = 3 \<or> len = 4" and lle: "len \<le> length p" by auto
        show ?thesis
        proof (cases "conts_ok p len 1")
          case False
          from dl_not_conts[OF False, of c0] obtain j
            where j: "decode_loop p len 1 c0 = Inl j" "1 \<le> j" "j < len" by auto
          have d: "decode p = Some (0xFFFD, drop j p)"
            using j lenok l234 Cons by (auto simp: len_def c0_def Let_def)
          have v: "\<not> validate p" using False lenok nasc Cons by (auto simp: len_def Let_def)
          have "take j p \<noteq> [0xEF, 0xBF, 0xBD]"
          proof
            assume e: "take j p = [0xEF, 0xBF, 0xBD]"
            then have "length (take j p) = 3" by simp
            with j lle have "j = 3" by simp
            with j l234 have "len = 4" by simp
            moreover from e Cons \<open>j = 3\<close> have "lead = 0xEF" by (simp add: numeral_3_eq_3)
            ultimately show False using seq_EF by (simp add: len_def)
          qed
          moreover have "length p - length (drop j p) = j" using j lle by simp
          ultimately show ?thesis unfolding nbs_step[OF d] using v by simp
        next
          case cok: True
          define cp where "cp = accum p len 1 c0"
          have dl: "decode_loop p len 1 c0 = Inr cp"
            using dl_conts[OF cok] by (simp add: cp_def)
          define bad where "bad \<longleftrightarrow> ((len = 2 \<and> cp < 0x80) \<or> (len = 3 \<and> cp < 0x800) \<or> (len = 4 \<and> cp < 0x10000))
               \<or> (0xD800 \<le> cp \<and> cp \<le> 0xDFFF) \<or> 0x10FFFF < cp"
          have lp: "length p - length (drop len p) = len" using lle by simp
          have dp: "drop (len - 1) rest = drop len p" using l234 Cons by (auto simp: numeral_2_eq_2 numeral_3_eq_3 numeral_eq_Suc)
          show ?thesis
          proof (cases bad)
            case True
            have d: "decode p = Some (0xFFFD, drop len p)"
              using True dl lenok l234 Cons
              by (auto simp: bad_def len_def c0_def Let_def)
            have v: "\<not> validate p"
              using True cok lenok l234 nasc Cons
              by (auto simp: bad_def cp_def len_def c0_def Let_def)
            have "take len p \<noteq> [0xEF, 0xBF, 0xBD]"
            proof
              assume e: "take len p = [0xEF, 0xBF, 0xBD]"
              then have "length (take len p) = 3" by simp
              with lle have l3: "len = 3" by simp
              from e l3 have n: "p ! Suc 0 = 0xBF" "p ! Suc (Suc 0) = 0xBD" "p ! 0 = 0xEF"
                using nth_take[of "Suc 0" 3 p] nth_take[of "Suc (Suc 0)" 3 p] nth_take[of 0 3 p]
                by simp_all
              with Cons have "lead = 0xEF" by simp
              with n l3 have "cp = 0xFFFD"
                by (simp add: cp_def c0_def ac_step ac_done)
              with True l3 show False by (simp add: bad_def)
            qed
            then show ?thesis unfolding nbs_step[OF d] lp using v by simp
          next
            case good: False
            have d: "decode p = Some (cp, drop len p)"
              using good dl lenok l234 Cons
              by (auto simp: bad_def len_def c0_def Let_def)
            have v: "validate p = validate (drop len p)"
              using good cok lenok l234 nasc Cons dp
              by (auto simp: bad_def cp_def len_def c0_def Let_def)
            have IH: "validate (drop len p) \<longleftrightarrow> no_bad_step (drop len p)"
              using less[of "drop len p"] l234 Cons by auto
            have "take len p = [0xEF, 0xBF, 0xBD]" if f: "cp = 0xFFFD"
            proof -
              from l234 consider "len = 2" | "len = 3" | "len = 4" by blast
              then show ?thesis
              proof cases
                case 1
                then have "cp = push_bit 6 (ucast (lead AND 0x1F)) OR ucast ((p ! 1) AND 0x3F)"
                  by (simp add: cp_def c0_def ac_step ac_done)
                with f two_ne_fffd show ?thesis by metis
              next
                case 2
                from lle 2 Cons obtain b c r where p: "p = lead # b # c # r"
                  by (cases rest; cases "tl rest"; auto)
                from 2 have cpv: "cp = push_bit 6 (push_bit 6 (ucast (lead AND 0x0F)) OR ucast (b AND 0x3F)) OR ucast (c AND 0x3F)"
                  by (simp add: cp_def c0_def ac_step ac_done p)
                from cok 2 p have bc: "b AND 0xC0 = 0x80" "c AND 0xC0 = 0x80"
                  by (auto simp: co_step co_done split: if_splits)
                from 2 have la: "lead AND 0xF0 = 0xE0" using seq_len3 by (simp add: len_def)
                from inj3[OF la bc] cpv f have "lead = 0xEF \<and> b = 0xBF \<and> c = 0xBD" by simp
                with p 2 show ?thesis by simp
              next
                case 3
                with good f show ?thesis by (simp add: bad_def)
              qed
            qed
            then show ?thesis unfolding nbs_step[OF d] lp v IH by auto
          qed
        qed
      qed
    qed
  qed
qed

text \<open>
  C7 (amended).  Decoding the encoding of a code point in [0, 0x10FFFF] outside the
  surrogate range gives the code point back and consumes every byte; and validate accepts
  a byte sequence exactly when every U+FFFD that the decode loop produces over it was
  decoded from the well-formed bytes EF BF BD.
\<close>

theorem utf8_roundtrip_and_validate:
  "(cp \<le> 0x10FFFF \<and> \<not> (0xD800 \<le> cp \<and> cp \<le> 0xDFFF) \<longrightarrow> decode (encode cp) = Some (cp, []))
   \<and> (validate p \<longleftrightarrow> no_bad_step p)"
  using decode_encode[of cp] validate_iff_aux[of p] by blast

theorem utf8_roundtrip_and_validate_witness:
  "decode (encode 0x1F600) = Some (0x1F600, [])
   \<and> validate [0xF0, 0x9F, 0x98, 0x80] \<and> no_bad_step [0xF0, 0x9F, 0x98, 0x80]"
proof -
  have v: "validate [0xF0, 0x9F, 0x98, 0x80]"
    by (simp add: sequence_length_def Let_def conts_ok.simps accum.simps)
  show ?thesis
    using utf8_roundtrip_and_validate[of "0x1F600" "[0xF0, 0x9F, 0x98, 0x80]"] v by simp
qed

end
